theory Spec2Isabelle
  imports Complex_Main
begin

section \<open>Geometric primitives (struct vec2f, main.cc lines 43-53)\<close>

text \<open>
  The source computes in IEEE single precision. The embedding idealises \<open>float\<close> to
  \<^typ>\<open>real\<close>: every arithmetic operation is exact, the constant \<open>PI\<close> is \<^term>\<open>pi\<close>, and
  \<open>atan2f\<close> is the mathematical two-argument arctangent with values in the half-open
  interval from \<open>-pi\<close> (excluded) to \<open>pi\<close> (included). Rounding, signed zeros, infinities
  and NaN are outside the model.

  One consequence matters below. In binary32 \<open>atan2f\<close> returns \<open>-pi\<close> for a negative zero
  or a tiny negative first argument together with a negative second argument; the
  remapped angle of lines 202-203 is then exactly 360 and loses the comparison with the
  initial \<open>min_ang = 360\<close>. In the model the angle of a candidate is always below 360.
  The general theorems of the claims use the angle only through the comparisons that the
  loop makes: none of them uses a bound on its values, a property of the norm other than
  that the norm of a zero vector is zero, or a property of \<open>operator==\<close> other than
  reflexivity and symmetry. The runs on concrete inputs are runs of the model.
\<close>

record vec2f =
  vx :: real
  vy :: real

definition add_v :: "vec2f \<Rightarrow> vec2f \<Rightarrow> vec2f" where
  "add_v a v = \<lparr>vx = vx a + vx v, vy = vy a + vy v\<rparr>"

definition mul_v :: "vec2f \<Rightarrow> real \<Rightarrow> vec2f" where
  "mul_v a v = \<lparr>vx = vx a * v, vy = vy a * v\<rparr>"

definition sub_v :: "vec2f \<Rightarrow> vec2f \<Rightarrow> vec2f" where
  "sub_v a v = \<lparr>vx = vx a - vx v, vy = vy a - vy v\<rparr>"

text \<open>
  \<open>operator==\<close>: both coordinates differ by less than the constant \<open>1e-9f\<close>, whose
  binary32 value is \<open>9007199 / 2^53\<close>.
\<close>

definition eq_v :: "vec2f \<Rightarrow> vec2f \<Rightarrow> bool" where
  "eq_v a v \<longleftrightarrow> \<bar>vx a - vx v\<bar> < 9007199 / 2 ^ 53 \<and> \<bar>vy a - vy v\<bar> < 9007199 / 2 ^ 53"

definition norm_v :: "vec2f \<Rightarrow> real" where
  "norm_v a = sqrt (vx a * vx a + vy a * vy a)"

definition PI :: real where
  "PI = pi"

text \<open>The library function \<open>atan2f y x\<close>, as the exact two-argument arctangent.\<close>

definition atan2f :: "real \<Rightarrow> real \<Rightarrow> real" where
  "atan2f b a =
     (if 0 < a then arctan (b / a)
      else if a < 0 then (if 0 \<le> b then arctan (b / a) + pi else arctan (b / a) - pi)
      else if 0 < b then pi / 2
      else if b < 0 then - (pi / 2)
      else 0)"

section \<open>The solver step (SolverStep, main.cc lines 169-234)\<close>

text \<open>
  The globals \<open>points\<close>, \<open>mean\<close> and \<open>line_segments\<close> become arguments; the vertex
  buffers and the OpenGL calls do not influence the chain and are left out. Reading
  \<open>points[0]\<close> or \<open>points[closest]\<close> of an empty vector is undefined behaviour in the
  source; the model returns the error \<open>OutOfRange\<close> there.
\<close>

datatype error = OutOfRange

text \<open>
  Lines 173-181: the index of the first element of the scanned prefix that is equal to
  the last chain element, if there is one.
\<close>

primrec first_match :: "vec2f \<Rightarrow> vec2f list \<Rightarrow> nat option" where
  "first_match l [] = None"
| "first_match l (c # cs) =
     (if eq_v l c then Some 0 else map_option Suc (first_match l cs))"

text \<open>
  Lines 171-182: \<open>None\<close> is the early \<open>return false\<close>; \<open>Some ch'\<close> is the chain with
  which the function goes on.
\<close>

definition closure_check :: "vec2f list \<Rightarrow> vec2f list option" where
  "closure_check ch =
     (if 1 < length ch then
        (case first_match (last ch) (butlast ch) of
           None \<Rightarrow> Some ch
         | Some idx \<Rightarrow> if idx = 0 then None else Some (drop (idx + 1) ch))
      else Some ch)"

text \<open>Lines 200-203: the remapped angle of one candidate.\<close>

definition angle :: "vec2f \<Rightarrow> vec2f \<Rightarrow> real" where
  "angle v1 v2 =
     (let dot = vx v1 * vx v2 + vy v1 * vy v2;
          det = vx v1 * vy v2 - vy v1 * vx v2;
          ang = atan2f det dot * 180 / PI
      in if ang < 0 then 180 - ang else ang)"

text \<open>
  Lines 195-209: the loop over \<open>points\<close>, from index \<open>idx\<close> on, with the running pair
  \<open>(min_ang, closest)\<close>.
\<close>

primrec scan :: "vec2f \<Rightarrow> vec2f \<Rightarrow> vec2f list \<Rightarrow> nat \<Rightarrow> real \<times> nat \<Rightarrow> real \<times> nat" where
  "scan v1 l [] idx acc = acc"
| "scan v1 l (pt # pts) idx acc =
     scan v1 l pts (Suc idx)
       (let v2 = sub_v pt l in
        if norm_v v2 = 0 then acc
        else let ang = angle v1 v2 in
             if ang < fst acc then (ang, idx) else acc)"

text \<open>Lines 191-209: \<open>(min_ang, closest)\<close> when the loop has ended.\<close>

definition select :: "vec2f list \<Rightarrow> vec2f \<Rightarrow> vec2f \<Rightarrow> real \<times> nat" where
  "select points mean l = scan (sub_v l mean) l points 0 (360, 0)"

text \<open>Lines 185-212 on a chain that has passed the closure check.\<close>

definition grow :: "vec2f list \<Rightarrow> vec2f \<Rightarrow> vec2f list \<Rightarrow> error + vec2f list" where
  "grow points mean ch =
     (if points = [] then Inl OutOfRange
      else if ch = [] then Inr [points ! 0]
      else
        let lst = length ch - 1;
            (min_ang, closest) = select points mean (ch ! lst)
        in if min_ang < 90 \<and> lst = 0 then Inr (ch[lst := points ! closest])
           else Inr (ch @ [points ! closest]))"

text \<open>
  The whole function: the returned flag (\<open>False\<close> is the spec's \<open>Done\<close>, \<open>True\<close> its
  \<open>Progressed\<close>) and the chain afterwards.
\<close>

definition SolverStep :: "vec2f list \<Rightarrow> vec2f \<Rightarrow> vec2f list \<Rightarrow> error + bool \<times> vec2f list" where
  "SolverStep points mean ch =
     (case closure_check ch of
        None \<Rightarrow> Inr (False, ch)
      | Some ch' \<Rightarrow>
          (case grow points mean ch' of
             Inl e \<Rightarrow> Inl e
           | Inr ch'' \<Rightarrow> Inr (True, ch'')))"

text \<open>
  The caller (\<open>main\<close>, lines 256-263) invokes the step again and again on the same
  globals: \<open>steps points mean n ch\<close> is the chain after \<open>n\<close> calls.
\<close>

primrec steps :: "vec2f list \<Rightarrow> vec2f \<Rightarrow> nat \<Rightarrow> vec2f list \<Rightarrow> error + vec2f list" where
  "steps points mean 0 ch = Inr ch"
| "steps points mean (Suc n) ch =
     (case SolverStep points mean ch of
        Inl e \<Rightarrow> Inl e
      | Inr (b, ch') \<Rightarrow> steps points mean n ch')"

text \<open>The chains that calls of the step produce from the empty chain.\<close>

inductive reachable :: "vec2f list \<Rightarrow> vec2f \<Rightarrow> vec2f list \<Rightarrow> bool"
  for points :: "vec2f list" and mean :: vec2f where
  reachable_empty: "reachable points mean []"
| reachable_step:
    "reachable points mean ch \<Longrightarrow> SolverStep points mean ch = Inr (b, ch')
       \<Longrightarrow> reachable points mean ch'"

text \<open>A point set whose points at different indices are different under \<open>operator==\<close>.\<close>

definition distinct_eps :: "vec2f list \<Rightarrow> bool" where
  "distinct_eps points \<longleftrightarrow>
     (\<forall>i < length points. \<forall>j < length points. i \<noteq> j \<longrightarrow> \<not> eq_v (points ! i) (points ! j))"

text \<open>Short notation for the aggregate \<open>vec2f{a, b}\<close>.\<close>

abbreviation V :: "real \<Rightarrow> real \<Rightarrow> vec2f" where
  "V a b \<equiv> \<lparr>vx = a, vy = b\<rparr>"

text \<open>
  The point that the selection phase picks when the last chain vertex is \<open>l\<close>
  (\<open>points[closest]\<close>, lines 210-211).
\<close>

definition next_pt :: "vec2f list \<Rightarrow> vec2f \<Rightarrow> vec2f \<Rightarrow> vec2f" where
  "next_pt points mean l = points ! snd (select points mean l)"

text \<open>On such a point set \<open>operator==\<close> decides equality.\<close>

definition eq_exact :: "vec2f list \<Rightarrow> bool" where
  "eq_exact points \<longleftrightarrow> (\<forall>p \<in> set points. \<forall>q \<in> set points. eq_v p q \<longrightarrow> p = q)"

text \<open>
  The invariant of the chain: its elements are points of the set, all elements but the
  last are different, and each element is the selection made at its predecessor.
\<close>

definition chain_inv :: "vec2f list \<Rightarrow> vec2f \<Rightarrow> vec2f list \<Rightarrow> bool" where
  "chain_inv points mean ch \<longleftrightarrow>
     set ch \<subseteq> set points \<and> distinct (butlast ch) \<and>
     (\<forall>i. Suc i < length ch \<longrightarrow> ch ! Suc i = next_pt points mean (ch ! i))"

text \<open>The squared distance of a point from the centroid, the measure of the first phase.\<close>

definition dist2 :: "vec2f \<Rightarrow> vec2f \<Rightarrow> real" where
  "dist2 mean q = (vx q - vx mean) * (vx q - vx mean) + (vy q - vy mean) * (vy q - vy mean)"

text \<open>
  Two weaker invariants that need no assumption on the point set: the chain consists of
  points of the set, each the selection made at its predecessor; and either the chain
  has no repeated element or its last element repeats an earlier one.
\<close>

definition chain_follow :: "vec2f list \<Rightarrow> vec2f \<Rightarrow> vec2f list \<Rightarrow> bool" where
  "chain_follow points mean ch \<longleftrightarrow>
     set ch \<subseteq> set points \<and>
     (\<forall>i. Suc i < length ch \<longrightarrow> ch ! Suc i = next_pt points mean (ch ! i))"

definition bound_inv :: "vec2f list \<Rightarrow> vec2f \<Rightarrow> vec2f list \<Rightarrow> bool" where
  "bound_inv points mean ch \<longleftrightarrow>
     chain_follow points mean ch \<and> length ch \<le> length points + 1 \<and>
     (distinct ch \<or> last ch \<in> set (butlast ch))"

text \<open>
  Two concrete inputs, each with the centroid of its points. The first has four
  different points of which three lie within 1.4e-9 of one another, about the tolerance of
  \<open>operator==\<close>; the second is a triangle on which the first vertex is replaced once.
\<close>

abbreviation quad_X :: vec2f where "quad_X \<equiv> V 0 4"
abbreviation quad_q :: vec2f where "quad_q \<equiv> V 0 (7 / 10000000000)"
abbreviation quad_b :: vec2f where "quad_b \<equiv> V (7 / 10000000000) 0"
abbreviation quad_a :: vec2f where "quad_a \<equiv> V 0 (- (7 / 10000000000))"
abbreviation quad_c :: vec2f where "quad_c \<equiv> V (7 / 40000000000) 1"
abbreviation quad_pts :: "vec2f list" where "quad_pts \<equiv> [quad_X, quad_q, quad_b, quad_a]"


section \<open>Basic facts\<close>

lemma eq_v_V [simp]:
  "eq_v (V a b) (V c d) \<longleftrightarrow> \<bar>a - c\<bar> < 9007199 / 2 ^ 53 \<and> \<bar>b - d\<bar> < 9007199 / 2 ^ 53"
  by (simp add: eq_v_def)

lemma eq_v_refl [simp]: "eq_v a a"
  by (simp add: eq_v_def)

lemma eq_v_sym: "eq_v a b \<longleftrightarrow> eq_v b a"
  by (auto simp: eq_v_def abs_minus_commute)

lemma sub_v_V [simp]: "sub_v (V a b) (V c d) = V (a - c) (b - d)"
  by (simp add: sub_v_def)

lemma norm_v_V [simp]: "norm_v (V a b) = 0 \<longleftrightarrow> a = 0 \<and> b = 0"
  by (simp add: norm_v_def add_nonneg_eq_0_iff)

lemma candidate_ne: "norm_v (sub_v p l) \<noteq> 0 \<Longrightarrow> p \<noteq> l"
  by (auto simp: norm_v_def sub_v_def)


lemma distinct_eps_eq_exact: "distinct_eps points \<Longrightarrow> eq_exact points"
  unfolding distinct_eps_def eq_exact_def by (metis in_set_conv_nth)

lemma distinct_eps_distinct: "distinct_eps points \<Longrightarrow> distinct points"
  unfolding distinct_eps_def distinct_conv_nth by (metis eq_v_refl)

lemma distinct_eps_pair [simp]: "distinct_eps [a, b] \<longleftrightarrow> \<not> eq_v a b \<and> \<not> eq_v b a"
  by (auto simp: distinct_eps_def less_Suc_eq)

lemma distinct_eps_single [simp]: "distinct_eps [a]"
  by (simp add: distinct_eps_def)

lemma distinct_eps_triple [simp]:
  "distinct_eps [a, b, c] \<longleftrightarrow>
     \<not> eq_v a b \<and> \<not> eq_v a c \<and> \<not> eq_v b a \<and> \<not> eq_v b c \<and> \<not> eq_v c a \<and> \<not> eq_v c b"
  by (auto simp: distinct_eps_def less_Suc_eq)

lemma distinct_length_le:
  assumes "distinct ch" and "set ch \<subseteq> set points"
  shows "length ch \<le> length points"
proof -
  have "length ch = card (set ch)" using assms(1) by (simp add: distinct_card)
  also have "\<dots> \<le> card (set points)" using assms(2) by (simp add: card_mono)
  also have "\<dots> \<le> length points" by (rule card_length)
  finally show ?thesis .
qed

subsection \<open>The angle\<close>

lemma angle_V:
  "angle (V a b) (V c d) =
     (if atan2f (a * d - b * c) (a * c + b * d) * 180 / pi < 0
      then 180 - atan2f (a * d - b * c) (a * c + b * d) * 180 / pi
      else atan2f (a * d - b * c) (a * c + b * d) * 180 / pi)"
  by (simp add: angle_def PI_def Let_def)

lemma atan2f_diag_neg_pos: "atan2f 1 (-1) = 3 * pi / 4"
  by (simp add: atan2f_def arctan_minus arctan_one)

lemma atan2f_diag_neg_neg: "atan2f (-1) (-1) = - (3 * pi / 4)"
  by (simp add: atan2f_def arctan_one)

lemma atan2f_back: "atan2f 0 (-2) = pi"
  by (simp add: atan2f_def)

lemma atan2f_diag_pos_pos: "atan2f 1 1 = pi / 4"
  by (simp add: atan2f_def arctan_one)

lemma angle_example_1: "angle (V 1 0) (V (-1) 1) = 135"
  by (simp add: angle_V atan2f_diag_neg_pos)

lemma angle_example_2: "angle (V 1 0) (V (-2) 0) = 180"
  by (simp add: angle_V atan2f_back)

lemma angle_example_3: "angle (V 1 0) (V (-1) (-1)) = 315"
  by (simp add: angle_V atan2f_diag_neg_neg)

lemma angle_example_4: "angle (V 1 0) (V 1 1) = 45"
  by (simp add: angle_V atan2f_diag_pos_pos)

lemma angle_example_7: "angle (V (-1) 0) (V 2 0) = 180"
  by (simp add: angle_V atan2f_back)

lemmas angle_examples = angle_example_1 angle_example_2 angle_example_3 angle_example_4
  angle_example_7

subsection \<open>The closure check\<close>

lemma first_match_less:
  "first_match l cs = Some idx \<Longrightarrow> idx < length cs"
  by (induction cs arbitrary: idx) (auto split: if_splits)

lemma first_match_None_iff:
  "first_match l cs = None \<longleftrightarrow> (\<forall>c \<in> set cs. \<not> eq_v l c)"
  by (induction cs) auto

lemma first_match_Some:
  "first_match l cs = Some i \<Longrightarrow>
     i < length cs \<and> eq_v l (cs ! i) \<and> (\<forall>j < i. \<not> eq_v l (cs ! j))"
proof (induction cs arbitrary: i)
  case Nil
  then show ?case by simp
next
  case (Cons c cs)
  show ?case
  proof (cases "eq_v l c")
    case True
    then show ?thesis using Cons.prems by simp
  next
    case False
    then obtain k where k: "first_match l cs = Some k" "i = Suc k"
      using Cons.prems by auto
    from Cons.IH [OF k(1)] show ?thesis using False k(2) by (auto simp: nth_Cons split: nat.splits)
  qed
qed

text \<open>
The outcomes of the closure check.
\<close>

lemma closure_check_cases:
  obtains (closed) "closure_check ch = None" "1 < length ch" "eq_v (last ch) (ch ! 0)"
  | (same) "closure_check ch = Some ch" "length ch \<le> 1 \<or> (\<forall>c \<in> set (butlast ch). \<not> eq_v (last ch) c)"
  | (pruned) idx where "closure_check ch = Some (drop (idx + 1) ch)" "0 < idx" "idx + 1 < length ch"
      "eq_v (last ch) (ch ! idx)" "\<forall>j < idx. \<not> eq_v (last ch) (ch ! j)"
proof (cases "1 < length ch")
  case False
  then show ?thesis using same by (simp add: closure_check_def)
next
  case True
  show ?thesis
  proof (cases "first_match (last ch) (butlast ch)")
    case None
    then have "\<forall>c \<in> set (butlast ch). \<not> eq_v (last ch) c"
      by (simp add: first_match_None_iff)
    moreover have "closure_check ch = Some ch" using None True by (simp add: closure_check_def)
    ultimately show ?thesis using same by blast
  next
    case (Some idx)
    from first_match_Some [OF Some]
    have i: "idx < length ch - 1" "eq_v (last ch) (ch ! idx)" "\<forall>j < idx. \<not> eq_v (last ch) (ch ! j)"
      by (auto simp: nth_butlast)
    show ?thesis
    proof (cases "idx = 0")
      case True
      then show ?thesis using closed Some i \<open>1 < length ch\<close> by (simp add: closure_check_def)
    next
      case False
      then show ?thesis using pruned [of idx] Some i \<open>1 < length ch\<close>
        by (simp add: closure_check_def)
    qed
  qed
qed

subsection \<open>The selection loop\<close>

text \<open>
  What the loop returns: a lower bound of the angles of all candidates, and either the
  initial pair (no candidate was below the initial angle) or the first candidate whose
  angle is the least.
\<close>

lemma scan_spec:
  "scan v1 l pts idx (m0, c0) = (m, c) \<Longrightarrow>
     (\<forall>j < length pts. norm_v (sub_v (pts ! j) l) \<noteq> 0 \<longrightarrow> m \<le> angle v1 (sub_v (pts ! j) l)) \<and>
     ((m = m0 \<and> c = c0 \<and>
        (\<forall>j < length pts. norm_v (sub_v (pts ! j) l) \<noteq> 0 \<longrightarrow> m0 \<le> angle v1 (sub_v (pts ! j) l))) \<or>
      (\<exists>k < length pts. c = idx + k \<and> norm_v (sub_v (pts ! k) l) \<noteq> 0 \<and>
          m = angle v1 (sub_v (pts ! k) l) \<and> m < m0 \<and>
          (\<forall>j < k. norm_v (sub_v (pts ! j) l) \<noteq> 0 \<longrightarrow> m < angle v1 (sub_v (pts ! j) l))))"
proof (induction pts arbitrary: idx m0 c0)
  case Nil
  then show ?case by simp
next
  case (Cons pt pts)
  let ?cand = "\<lambda>q. norm_v (sub_v q l) \<noteq> 0"
  let ?ang = "\<lambda>q. angle v1 (sub_v q l)"
  show ?case
  proof (cases "?cand pt \<and> ?ang pt < m0")
    case True
    then have s: "scan v1 l pts (Suc idx) (?ang pt, idx) = (m, c)"
      using Cons.prems by (simp add: Let_def)
    note ih = Cons.IH [OF s]
    from ih have all: "\<forall>j < length pts. ?cand (pts ! j) \<longrightarrow> m \<le> ?ang (pts ! j)" by blast
    from ih consider
      (keep) "m = ?ang pt" "c = idx" |
      (later) k where "k < length pts" "c = Suc idx + k" "?cand (pts ! k)" "m = ?ang (pts ! k)"
        "m < ?ang pt" "\<forall>j < k. ?cand (pts ! j) \<longrightarrow> m < ?ang (pts ! j)"
      by blast
    then show ?thesis
    proof cases
      case keep
      have "\<forall>j < length (pt # pts). ?cand ((pt # pts) ! j) \<longrightarrow> m \<le> ?ang ((pt # pts) ! j)"
        using all keep(1) by (auto simp: nth_Cons split: nat.splits)
      moreover have "\<exists>k < length (pt # pts). c = idx + k \<and> ?cand ((pt # pts) ! k) \<and>
          m = ?ang ((pt # pts) ! k) \<and> m < m0 \<and>
          (\<forall>j < k. ?cand ((pt # pts) ! j) \<longrightarrow> m < ?ang ((pt # pts) ! j))"
        using keep True by (intro exI [of _ 0]) simp
      ultimately show ?thesis by blast
    next
      case later
      have "\<forall>j < length (pt # pts). ?cand ((pt # pts) ! j) \<longrightarrow> m \<le> ?ang ((pt # pts) ! j)"
        using all later(5) by (auto simp: nth_Cons split: nat.splits)
      moreover have "\<exists>k < length (pt # pts). c = idx + k \<and> ?cand ((pt # pts) ! k) \<and>
          m = ?ang ((pt # pts) ! k) \<and> m < m0 \<and>
          (\<forall>j < k. ?cand ((pt # pts) ! j) \<longrightarrow> m < ?ang ((pt # pts) ! j))"
        using later True by (intro exI [of _ "Suc k"]) (auto simp: nth_Cons split: nat.splits)
      ultimately show ?thesis by blast
    qed
  next
    case False
    then have s: "scan v1 l pts (Suc idx) (m0, c0) = (m, c)"
      using Cons.prems by (auto simp: Let_def split: if_splits)
    note ih = Cons.IH [OF s]
    from ih have all: "\<forall>j < length pts. ?cand (pts ! j) \<longrightarrow> m \<le> ?ang (pts ! j)" by blast
    from ih consider
      (keep) "m = m0" "c = c0" "\<forall>j < length pts. ?cand (pts ! j) \<longrightarrow> m0 \<le> ?ang (pts ! j)" |
      (later) k where "k < length pts" "c = Suc idx + k" "?cand (pts ! k)" "m = ?ang (pts ! k)"
        "m < m0" "\<forall>j < k. ?cand (pts ! j) \<longrightarrow> m < ?ang (pts ! j)"
      by blast
    then show ?thesis
    proof cases
      case keep
      have "\<forall>j < length (pt # pts). ?cand ((pt # pts) ! j) \<longrightarrow> m0 \<le> ?ang ((pt # pts) ! j)"
        using keep(3) False by (auto simp: nth_Cons split: nat.splits)
      then show ?thesis using keep(1,2) by blast
    next
      case later
      have "\<forall>j < length (pt # pts). ?cand ((pt # pts) ! j) \<longrightarrow> m \<le> ?ang ((pt # pts) ! j)"
        using all later(5) False by (auto simp: nth_Cons split: nat.splits)
      moreover have "\<exists>k < length (pt # pts). c = idx + k \<and> ?cand ((pt # pts) ! k) \<and>
          m = ?ang ((pt # pts) ! k) \<and> m < m0 \<and>
          (\<forall>j < k. ?cand ((pt # pts) ! j) \<longrightarrow> m < ?ang ((pt # pts) ! j))"
        using later False by (intro exI [of _ "Suc k"]) (auto simp: nth_Cons split: nat.splits)
      ultimately show ?thesis by blast
    qed
  qed
qed

lemma scan_no_candidate:
  "\<forall>p \<in> set pts. norm_v (sub_v p l) = 0 \<Longrightarrow> scan v1 l pts idx acc = acc"
  by (induction pts arbitrary: idx) simp_all

text \<open>
  The same for the whole loop, whatever the angles are: its initial pair when no
  candidate is below the initial angle 360, and otherwise the first candidate of least
  angle.
\<close>

lemma select_spec:
  "case select points mean l of (min_ang, closest) \<Rightarrow>
     (min_ang = 360 \<and> closest = 0 \<and>
      (\<forall>j < length points. norm_v (sub_v (points ! j) l) \<noteq> 0 \<longrightarrow>
         360 \<le> angle (sub_v l mean) (sub_v (points ! j) l))) \<or>
     (closest < length points \<and> norm_v (sub_v (points ! closest) l) \<noteq> 0 \<and>
      min_ang = angle (sub_v l mean) (sub_v (points ! closest) l) \<and> min_ang < 360 \<and>
      (\<forall>j < length points. norm_v (sub_v (points ! j) l) \<noteq> 0 \<longrightarrow>
         min_ang \<le> angle (sub_v l mean) (sub_v (points ! j) l)) \<and>
      (\<forall>j < closest. norm_v (sub_v (points ! j) l) \<noteq> 0 \<longrightarrow>
         min_ang < angle (sub_v l mean) (sub_v (points ! j) l)))"
proof -
  obtain m c where s: "select points mean l = (m, c)" by (cases "select points mean l")
  then have sc: "scan (sub_v l mean) l points 0 (360, 0) = (m, c)" by (simp add: select_def)
  from scan_spec [OF sc] show ?thesis unfolding s by (simp only: prod.case) fastforce
qed

lemma select_index: "points \<noteq> [] \<Longrightarrow> snd (select points mean l) < length points"
proof -
  assume p: "points \<noteq> []"
  obtain m c where s: "select points mean l = (m, c)" by (cases "select points mean l")
  then have "scan (sub_v l mean) l points 0 (360, 0) = (m, c)" by (simp add: select_def)
  from scan_spec [OF this] have "c = 0 \<or> c < length points" by auto
  then show ?thesis using p s by auto
qed

lemma next_pt_in: "points \<noteq> [] \<Longrightarrow> next_pt points mean l \<in> set points"
  by (simp add: next_pt_def select_index)


lemma select_example:
  "select [V 0 1, V (-1) 0, V 0 (-1)] (V 0 0) (V 1 0) = (135, 0)"
  by (simp add: select_def angle_examples)

subsection \<open>The step\<close>

lemma grow_nonempty:
  "points \<noteq> [] \<Longrightarrow> ch \<noteq> [] \<Longrightarrow>
   grow points mean ch =
     Inr (if length ch = 1 \<and> fst (select points mean (last ch)) < 90
          then [points ! snd (select points mean (last ch))]
          else ch @ [points ! snd (select points mean (last ch))])"
proof -
  assume p: "points \<noteq> []" and c: "ch \<noteq> []"
  obtain ys y where ch: "ch = ys @ [y]" using c by (cases ch rule: rev_cases) auto
  obtain m k where s: "select points mean y = (m, k)" by (cases "select points mean y")
  show ?thesis
  proof (cases ys)
    case Nil
    then show ?thesis using p ch s by (simp add: grow_def)
  next
    case (Cons z zs)
    then show ?thesis using p ch s by (simp add: grow_def)
  qed
qed

lemma SolverStep_Some:
  "closure_check ch = Some pr \<Longrightarrow> points \<noteq> [] \<Longrightarrow>
   SolverStep points mean ch =
     Inr (True,
       if pr = [] then [points ! 0]
       else if length pr = 1 \<and> fst (select points mean (last pr)) < 90
       then [next_pt points mean (last pr)]
       else pr @ [next_pt points mean (last pr)])"
  by (simp add: SolverStep_def grow_nonempty next_pt_def) (simp add: grow_def)

lemma SolverStep_empty_points:
  "closure_check ch = Some pr \<Longrightarrow> SolverStep [] mean ch = Inl OutOfRange"
  by (simp add: SolverStep_def grow_def)

lemma SolverStep_SomeD:
  assumes "SolverStep points mean ch = Inr (b, ch')" and "closure_check ch = Some pr"
  shows "points \<noteq> [] \<and> b \<and>
     ch' = (if pr = [] then [points ! 0]
       else if length pr = 1 \<and> fst (select points mean (last pr)) < 90
       then [next_pt points mean (last pr)]
       else pr @ [next_pt points mean (last pr)])"
proof -
  have p: "points \<noteq> []" using assms by (auto simp: SolverStep_empty_points)
  from SolverStep_Some [OF assms(2) p, of mean] assms(1) show ?thesis
    using p by (simp only: sum.inject prod.inject) simp
qed

lemma SolverStep_False_iff:
  "SolverStep points mean ch = Inr (False, ch') \<longleftrightarrow> closure_check ch = None \<and> ch' = ch"
  by (auto simp: SolverStep_def split: option.splits sum.splits)

lemma steps_Done:
  "closure_check ch = None \<Longrightarrow> steps points mean n ch = Inr ch"
  by (induction n) (simp_all add: SolverStep_def)

lemma steps_reachable:
  "reachable points mean ch \<Longrightarrow> steps points mean n ch = Inr ch' \<Longrightarrow> reachable points mean ch'"
proof (induction n arbitrary: ch)
  case 0
  then show ?case by simp
next
  case (Suc n)
  from Suc.prems(2) obtain b c where s: "SolverStep points mean ch = Inr (b, c)"
    and r: "steps points mean n c = Inr ch'"
    by (auto split: sum.splits)
  have "reachable points mean c" using Suc.prems(1) s by (rule reachable_step)
  then show ?case using r by (rule Suc.IH)
qed

section \<open>The chain invariants\<close>

lemma chain_inv_single: "p \<in> set points \<Longrightarrow> chain_inv points mean [p]"
  by (simp add: chain_inv_def)

lemma chain_inv_drop: "chain_inv points mean ch \<Longrightarrow> chain_inv points mean (drop k ch)"
proof -
  assume a: "chain_inv points mean ch"
  have "set (drop k ch) \<subseteq> set points" using a set_drop_subset [of k ch] by (auto simp: chain_inv_def)
  moreover have "distinct (butlast (drop k ch))"
    using a by (simp add: chain_inv_def butlast_drop)
  moreover have "\<forall>i. Suc i < length (drop k ch) \<longrightarrow>
      drop k ch ! Suc i = next_pt points mean (drop k ch ! i)"
  proof (intro allI impI)
    fix i assume "Suc i < length (drop k ch)"
    then have "Suc (k + i) < length ch" by simp
    then have "ch ! Suc (k + i) = next_pt points mean (ch ! (k + i))"
      using a by (simp add: chain_inv_def)
    then show "drop k ch ! Suc i = next_pt points mean (drop k ch ! i)"
      using \<open>Suc (k + i) < length ch\<close> by simp
  qed
  ultimately show ?thesis by (simp add: chain_inv_def)
qed

lemma chain_inv_append:
  assumes "chain_inv points mean ch" and "distinct ch" and "ch \<noteq> []" and "points \<noteq> []"
  shows "chain_inv points mean (ch @ [next_pt points mean (last ch)])"
proof -
  let ?w = "next_pt points mean (last ch)"
  have "set (ch @ [?w]) \<subseteq> set points"
    using assms(1,4) by (simp add: chain_inv_def next_pt_in)
  moreover have "distinct (butlast (ch @ [?w]))" using assms(2) by simp
  moreover have "\<forall>i. Suc i < length (ch @ [?w]) \<longrightarrow>
      (ch @ [?w]) ! Suc i = next_pt points mean ((ch @ [?w]) ! i)"
  proof (intro allI impI)
    fix i assume i: "Suc i < length (ch @ [?w])"
    show "(ch @ [?w]) ! Suc i = next_pt points mean ((ch @ [?w]) ! i)"
    proof (cases "Suc i < length ch")
      case True
      then show ?thesis using assms(1) by (simp add: chain_inv_def nth_append)
    next
      case False
      then have e: "Suc i = length ch" using i by simp
      then have "i = length ch - 1" by simp
      then have "ch ! i = last ch" using assms(3) by (simp add: last_conv_nth)
      then show ?thesis using e by (simp add: nth_append)
    qed
  qed
  ultimately show ?thesis by (simp add: chain_inv_def)
qed

text \<open>
After pruning, the kept suffix has no repeated element.
\<close>

lemma pruned_distinct:
  assumes "eq_exact points" and "chain_inv points mean ch" and "idx + 1 < length ch"
    and "eq_v (last ch) (ch ! idx)"
  shows "distinct (drop (idx + 1) ch)"
proof -
  obtain ys y where ch: "ch = ys @ [y]"
    using assms(3) by (cases ch rule: rev_cases) auto
  have i: "idx < length ys" using assms(3) ch by simp
  have sub: "set ch \<subseteq> set points" and d: "distinct ys"
    using assms(2) ch by (simp_all add: chain_inv_def)
  have "y \<in> set points" "ys ! idx \<in> set points"
    using sub ch i by auto
  moreover have "eq_v y (ys ! idx)" using assms(4) ch i by (simp add: nth_append)
  ultimately have e: "y = ys ! idx" using assms(1) by (simp add: eq_exact_def)
  have "distinct (take (idx + 1) ys @ drop (idx + 1) ys)" using d by simp
  then have dd: "distinct (drop (idx + 1) ys)"
    and dj: "set (take (idx + 1) ys) \<inter> set (drop (idx + 1) ys) = {}"
    by (simp_all only: distinct_append)
  have "ys ! idx \<in> set (take (idx + 1) ys)"
    using i by (auto simp: in_set_conv_nth intro!: exI [of _ idx])
  then have "y \<notin> set (drop (idx + 1) ys)" using dj e by blast
  moreover have "drop (idx + 1) ch = drop (idx + 1) ys @ [y]" using i ch by simp
  ultimately show ?thesis using dd by simp
qed

lemma unmatched_distinct:
  assumes "distinct (butlast ch)"
    and "length ch \<le> 1 \<or> (\<forall>c \<in> set (butlast ch). \<not> eq_v (last ch) c)"
  shows "distinct ch"
proof (cases ch rule: rev_cases)
  case Nil
  then show ?thesis by simp
next
  case (snoc ys y)
  have "y \<notin> set ys"
  proof
    assume "y \<in> set ys"
    then have "ys \<noteq> [] \<and> eq_v y y" by auto
    then show False using assms(2) snoc \<open>y \<in> set ys\<close> by auto
  qed
  then show ?thesis using assms(1) snoc by simp
qed

lemma chain_inv_grown:
  assumes "chain_inv points mean pr" and "distinct pr" and "points \<noteq> []"
  shows "chain_inv points mean
     (if pr = [] then [points ! 0]
       else if length pr = 1 \<and> fst (select points mean (last pr)) < 90
       then [next_pt points mean (last pr)]
       else pr @ [next_pt points mean (last pr)])"
proof (cases "pr = []")
  case True
  then show ?thesis using assms(3) by (simp add: chain_inv_single)
next
  case False
  show ?thesis
  proof (cases "length pr = 1 \<and> fst (select points mean (last pr)) < 90")
    case True
    then show ?thesis using False assms(3) by (simp add: chain_inv_single next_pt_in)
  next
    case False
    have "chain_inv points mean (pr @ [next_pt points mean (last pr)])"
      using assms(1,2) \<open>pr \<noteq> []\<close> assms(3) by (rule chain_inv_append)
    then show ?thesis using False \<open>pr \<noteq> []\<close> by (simp only: if_False)
  qed
qed

lemma chain_inv_step:
  assumes ex: "eq_exact points" and inv: "chain_inv points mean ch"
    and st: "SolverStep points mean ch = Inr (b, ch')"
  shows "chain_inv points mean ch'"
proof (rule closure_check_cases [of ch])
  assume "closure_check ch = None"
  then show ?thesis using st inv by (simp add: SolverStep_def)
next
  assume same: "closure_check ch = Some ch"
    "length ch \<le> 1 \<or> (\<forall>c \<in> set (butlast ch). \<not> eq_v (last ch) c)"
  have "distinct (butlast ch)" using inv by (simp add: chain_inv_def)
  then have d: "distinct ch" using same(2) by (rule unmatched_distinct)
  from SolverStep_SomeD [OF st same(1)] have p: "points \<noteq> []" by (rule conjunct1)
  from SolverStep_SomeD [OF st same(1)] have e: "ch' = (if ch = [] then [points ! 0]
       else if length ch = 1 \<and> fst (select points mean (last ch)) < 90
       then [next_pt points mean (last ch)]
       else ch @ [next_pt points mean (last ch)])" by blast
  show ?thesis unfolding e by (rule chain_inv_grown [OF inv d p])
next
  fix idx
  assume pruned: "closure_check ch = Some (drop (idx + 1) ch)" "idx + 1 < length ch"
    "eq_v (last ch) (ch ! idx)"
  let ?pr = "drop (idx + 1) ch"
  have d: "distinct ?pr" using ex inv pruned(2,3) by (rule pruned_distinct)
  have i: "chain_inv points mean ?pr" using inv by (rule chain_inv_drop)
  from SolverStep_SomeD [OF st pruned(1)] have p: "points \<noteq> []" by (rule conjunct1)
  from SolverStep_SomeD [OF st pruned(1)] have e: "ch' = (if ?pr = [] then [points ! 0]
       else if length ?pr = 1 \<and> fst (select points mean (last ?pr)) < 90
       then [next_pt points mean (last ?pr)]
       else ?pr @ [next_pt points mean (last ?pr)])" by blast
  show ?thesis unfolding e by (rule chain_inv_grown [OF i d p])
qed

lemma reachable_inv:
  assumes "eq_exact points" and "reachable points mean ch"
  shows "chain_inv points mean ch"
  using assms(2)
proof (induction rule: reachable.induct)
  case reachable_empty
  show ?case by (simp add: chain_inv_def)
next
  case (reachable_step ch b ch')
  then show ?case using chain_inv_step [OF assms(1)] by blast
qed

lemma chain_follow_single: "p \<in> set points \<Longrightarrow> chain_follow points mean [p]"
  by (simp add: chain_follow_def)

lemma chain_follow_drop:
  assumes "chain_follow points mean ch"
  shows "chain_follow points mean (drop k ch)"
proof -
  have "set (drop k ch) \<subseteq> set points"
    using assms set_drop_subset [of k ch] by (auto simp: chain_follow_def)
  moreover have "\<forall>i. Suc i < length (drop k ch) \<longrightarrow>
      drop k ch ! Suc i = next_pt points mean (drop k ch ! i)"
  proof (intro allI impI)
    fix i assume "Suc i < length (drop k ch)"
    then have l: "Suc (k + i) < length ch" by simp
    then have "ch ! Suc (k + i) = next_pt points mean (ch ! (k + i))"
      using assms by (simp add: chain_follow_def)
    then show "drop k ch ! Suc i = next_pt points mean (drop k ch ! i)"
      using l by simp
  qed
  ultimately show ?thesis by (simp add: chain_follow_def)
qed

lemma chain_follow_append:
  assumes "chain_follow points mean ch" and "ch \<noteq> []" and "points \<noteq> []"
  shows "chain_follow points mean (ch @ [next_pt points mean (last ch)])"
proof -
  let ?w = "next_pt points mean (last ch)"
  have "set (ch @ [?w]) \<subseteq> set points"
    using assms(1,3) by (simp add: chain_follow_def next_pt_in)
  moreover have "\<forall>i. Suc i < length (ch @ [?w]) \<longrightarrow>
      (ch @ [?w]) ! Suc i = next_pt points mean ((ch @ [?w]) ! i)"
  proof (intro allI impI)
    fix i assume i: "Suc i < length (ch @ [?w])"
    show "(ch @ [?w]) ! Suc i = next_pt points mean ((ch @ [?w]) ! i)"
    proof (cases "Suc i < length ch")
      case True
      then show ?thesis using assms(1) by (simp add: chain_follow_def nth_append)
    next
      case False
      then have e: "Suc i = length ch" using i by simp
      then have "i = length ch - 1" by simp
      then have "ch ! i = last ch" using assms(2) by (simp add: last_conv_nth)
      then show ?thesis using e by (simp add: nth_append)
    qed
  qed
  ultimately show ?thesis by (simp add: chain_follow_def)
qed

text \<open>
The chain that the selection phase builds from an invariant chain \<open>pr\<close>.
\<close>

lemma bound_inv_grown:
  assumes f: "chain_follow points mean pr" and p: "points \<noteq> []"
    and l: "length pr \<le> length points"
    and d: "pr \<noteq> [] \<Longrightarrow> distinct pr \<or> next_pt points mean (last pr) \<in> set pr"
  shows "bound_inv points mean
     (if pr = [] then [points ! 0]
       else if length pr = 1 \<and> fst (select points mean (last pr)) < 90
       then [next_pt points mean (last pr)]
       else pr @ [next_pt points mean (last pr)])"
proof (cases "pr = []")
  case True
  then show ?thesis using p by (simp add: bound_inv_def chain_follow_single)
next
  case False
  show ?thesis
  proof (cases "length pr = 1 \<and> fst (select points mean (last pr)) < 90")
    case True
    then show ?thesis using False p by (simp add: bound_inv_def chain_follow_single next_pt_in)
  next
    case c: False
    let ?w = "next_pt points mean (last pr)"
    have "chain_follow points mean (pr @ [?w])" using f False p by (rule chain_follow_append)
    moreover have "length (pr @ [?w]) \<le> length points + 1" using l by simp
    moreover have "distinct (pr @ [?w]) \<or> last (pr @ [?w]) \<in> set (butlast (pr @ [?w]))"
      using d [OF False] by auto
    ultimately have "bound_inv points mean (pr @ [?w])" by (simp only: bound_inv_def)
    then show ?thesis using False c by (simp only: if_False)
  qed
qed

lemma bound_inv_step:
  assumes inv: "bound_inv points mean ch"
    and st: "SolverStep points mean ch = Inr (b, ch')"
  shows "bound_inv points mean ch'"
proof (rule closure_check_cases [of ch])
  assume "closure_check ch = None"
  then show ?thesis using st inv by (simp add: SolverStep_def)
next
  assume same: "closure_check ch = Some ch"
    "length ch \<le> 1 \<or> (\<forall>c \<in> set (butlast ch). \<not> eq_v (last ch) c)"
  have f: "chain_follow points mean ch" using inv by (simp add: bound_inv_def)
  have "last ch \<notin> set (butlast ch)"
  proof
    assume a: "last ch \<in> set (butlast ch)"
    then have "1 < length ch" by (cases ch rule: rev_cases) auto
    then show False using same(2) a eq_v_refl by auto
  qed
  then have d: "distinct ch" using inv by (simp add: bound_inv_def)
  have l: "length ch \<le> length points"
    using d f by (intro distinct_length_le) (simp_all add: chain_follow_def)
  from SolverStep_SomeD [OF st same(1)] have p: "points \<noteq> []" by (rule conjunct1)
  from SolverStep_SomeD [OF st same(1)] have e: "ch' = (if ch = [] then [points ! 0]
       else if length ch = 1 \<and> fst (select points mean (last ch)) < 90
       then [next_pt points mean (last ch)]
       else ch @ [next_pt points mean (last ch)])" by blast
  show ?thesis unfolding e using f p l d by (intro bound_inv_grown) simp_all
next
  fix idx
  assume pruned: "closure_check ch = Some (drop (idx + 1) ch)" "0 < idx"
    "idx + 1 < length ch" "eq_v (last ch) (ch ! idx)"
    "\<forall>j < idx. \<not> eq_v (last ch) (ch ! j)"
  let ?pr = "drop (idx + 1) ch"
  have f: "chain_follow points mean ch" and len: "length ch \<le> length points + 1"
    and dd: "distinct ch \<or> last ch \<in> set (butlast ch)"
    using inv by (simp_all add: bound_inv_def)
  have ne: "?pr \<noteq> []" using pruned(3) by simp
  have lp: "last ?pr = last ch" using pruned(3) by simp
  have fp: "chain_follow points mean ?pr" using f by (rule chain_follow_drop)
  have l: "length ?pr \<le> length points" using len pruned(2,3) by simp
  have d: "distinct ?pr \<or> next_pt points mean (last ?pr) \<in> set ?pr"
  proof (cases "distinct ch")
    case True
    then show ?thesis by simp
  next
    case False
    then have "last ch \<in> set (butlast ch)" using dd by simp
    then obtain s where s: "s < length (butlast ch)" "butlast ch ! s = last ch"
      by (auto simp: in_set_conv_nth)
    then have s1: "Suc s < length ch" and cs: "ch ! s = last ch"
      by (simp_all add: nth_butlast)
    have "eq_v (last ch) (ch ! s)" using cs by simp
    then have "\<not> s < idx" using pruned(5) by blast
    then have ge: "idx + 1 \<le> Suc s" by simp
    have "next_pt points mean (last ch) = ch ! Suc s"
      using f s1 cs by (simp add: chain_follow_def)
    also have "\<dots> = ?pr ! (Suc s - (idx + 1))" using ge s1 by simp
    also have "\<dots> \<in> set ?pr" using ge s1 by (intro nth_mem) simp
    finally show ?thesis using lp by simp
  qed
  from SolverStep_SomeD [OF st pruned(1)] have p: "points \<noteq> []" by (rule conjunct1)
  from SolverStep_SomeD [OF st pruned(1)] have e: "ch' = (if ?pr = [] then [points ! 0]
       else if length ?pr = 1 \<and> fst (select points mean (last ?pr)) < 90
       then [next_pt points mean (last ?pr)]
       else ?pr @ [next_pt points mean (last ?pr)])" by blast
  show ?thesis unfolding e using fp p l d by (intro bound_inv_grown) simp_all
qed

lemma reachable_bound_inv:
  assumes "reachable points mean ch"
  shows "bound_inv points mean ch"
  using assms
proof (induction rule: reachable.induct)
  case reachable_empty
  show ?case by (simp add: bound_inv_def chain_follow_def)
next
  case (reachable_step ch b ch')
  then show ?case using bound_inv_step by blast
qed

section \<open>Closure: the terminal state\<close>

text \<open>
  Claim C2. On a chain of at least two elements whose first earlier element equal to
  the last one is at index 0, the step returns \<open>False\<close> (Done) and the chain is as
  before. Whenever a call has returned Done, the chain is unchanged, any number \<open>n\<close> of
  further calls leaves it unchanged, and the next call returns Done again.
\<close>

theorem done_idempotent:
  "(1 < length ch \<and> first_match (last ch) (butlast ch) = Some 0
      \<longrightarrow> SolverStep points mean ch = Inr (False, ch)) \<and>
   (SolverStep points mean ch = Inr (False, ch')
      \<longrightarrow> ch' = ch \<and> steps points mean n ch' = Inr ch' \<and>
          SolverStep points mean ch' = Inr (False, ch'))"
proof (intro conjI impI)
  assume "1 < length ch \<and> first_match (last ch) (butlast ch) = Some 0"
  then have "closure_check ch = None" by (simp add: closure_check_def)
  then show "SolverStep points mean ch = Inr (False, ch)" by (simp add: SolverStep_False_iff)
next
  assume a: "SolverStep points mean ch = Inr (False, ch')"
  then have c: "closure_check ch = None" and e: "ch' = ch"
    by (simp_all add: SolverStep_False_iff)
  show "ch' = ch" by (rule e)
  show "steps points mean n ch' = Inr ch'" using c e by (simp add: steps_Done)
  show "SolverStep points mean ch' = Inr (False, ch')" using a e by simp
qed

theorem done_idempotent_witness:
  "1 < length [V 0 0, V 1 0, V 0 0] \<and>
   first_match (last [V 0 0, V 1 0, V 0 0]) (butlast [V 0 0, V 1 0, V 0 0]) = Some 0 \<and>
   SolverStep [V 0 0, V 1 0] (V 0 0) [V 0 0, V 1 0, V 0 0]
     = Inr (False, [V 0 0, V 1 0, V 0 0]) \<and>
   steps [V 0 0, V 1 0] (V 0 0) 5 [V 0 0, V 1 0, V 0 0] = Inr [V 0 0, V 1 0, V 0 0]"
  using done_idempotent [of "[V 0 0, V 1 0, V 0 0]" "[V 0 0, V 1 0]" "V 0 0"
      "[V 0 0, V 1 0, V 0 0]" 5]
  by simp

section \<open>Pruning\<close>

text \<open>
  Claim C3. On a chain of at least two elements whose first earlier element equal to
  the last one is at an index \<open>idx > 0\<close>, the closure check keeps
  \<open>Chain[idx+1 .. end]\<close>, which is not empty, and the same call runs the selection on
  that pruned chain and returns \<open>True\<close> (Progressed). The point set is not empty (the
  program fixes 20 points).
\<close>

theorem prune_then_select:
  assumes "1 < length ch" and "first_match (last ch) (butlast ch) = Some idx" and "0 < idx"
    and "points \<noteq> []"
  shows "closure_check ch = Some (drop (idx + 1) ch) \<and> drop (idx + 1) ch \<noteq> [] \<and>
         SolverStep points mean ch =
           Inr (True,
             let pr = drop (idx + 1) ch; (min_ang, closest) = select points mean (last pr)
             in if length pr = 1 \<and> min_ang < 90 then [points ! closest]
                else pr @ [points ! closest])"
proof -
  have c: "closure_check ch = Some (drop (idx + 1) ch)"
    using assms by (simp add: closure_check_def)
  have "idx < length (butlast ch)" using assms(2) by (rule first_match_less)
  then have n: "drop (idx + 1) ch \<noteq> []" by simp
  show ?thesis using c n assms(4)
    by (simp add: SolverStep_def grow_nonempty Let_def split: prod.splits)
qed

theorem prune_then_select_witness:
  "1 < length [V 5 5, V 1 0, V 7 7, V 1 0] \<and>
   first_match (last [V 5 5, V 1 0, V 7 7, V 1 0]) (butlast [V 5 5, V 1 0, V 7 7, V 1 0]) = Some 1 \<and>
   (0::nat) < 1 \<and> [V 0 1, V (-1) 0, V 0 (-1)] \<noteq> [] \<and>
   closure_check [V 5 5, V 1 0, V 7 7, V 1 0] = Some [V 7 7, V 1 0] \<and>
   SolverStep [V 0 1, V (-1) 0, V 0 (-1)] (V 0 0) [V 5 5, V 1 0, V 7 7, V 1 0]
     = Inr (True, [V 7 7, V 1 0, V 0 1])"
  using prune_then_select [of "[V 5 5, V 1 0, V 7 7, V 1 0]" 1 "[V 0 1, V (-1) 0, V 0 (-1)]" "V 0 0"]
  by (simp add: select_example)

text \<open>
  Claim C4, as amended. On the chain \<open>[A, B, C, B]\<close> with \<open>A\<close>, \<open>B\<close>, \<open>C\<close> pairwise
  different under \<open>operator==\<close>, the closure check erases the elements 0 and 1: the
  chain before the new selection is \<open>[C, B]\<close>, and the step returns it with the selected
  point appended.
\<close>

theorem prune_example:
  "\<not> eq_v A B \<and> \<not> eq_v A C \<and> \<not> eq_v B C \<longrightarrow>
     closure_check [A, B, C, B] = Some [C, B] \<and>
     (points \<noteq> [] \<longrightarrow>
        SolverStep points mean [A, B, C, B]
          = Inr (True, [C, B, points ! snd (select points mean B)]))"
proof (intro impI)
  assume a: "\<not> eq_v A B \<and> \<not> eq_v A C \<and> \<not> eq_v B C"
  then have "\<not> eq_v B A" using eq_v_sym by blast
  then have c: "closure_check [A, B, C, B] = Some [C, B]" by (simp add: closure_check_def)
  show "closure_check [A, B, C, B] = Some [C, B] \<and>
     (points \<noteq> [] \<longrightarrow>
        SolverStep points mean [A, B, C, B]
          = Inr (True, [C, B, points ! snd (select points mean B)]))"
    using c by (simp add: SolverStep_Some next_pt_def)
qed

theorem prune_example_witness:
  "\<not> eq_v (V 0 0) (V 1 0) \<and> \<not> eq_v (V 0 0) (V 0 1) \<and> \<not> eq_v (V 1 0) (V 0 1) \<and>
   [V 0 1, V (-1) 0, V 0 (-1)] \<noteq> [] \<and>
   closure_check [V 0 0, V 1 0, V 0 1, V 1 0] = Some [V 0 1, V 1 0] \<and>
   SolverStep [V 0 1, V (-1) 0, V 0 (-1)] (V 0 0) [V 0 0, V 1 0, V 0 1, V 1 0]
     = Inr (True, [V 0 1, V 1 0, V 0 1])"
  using prune_example [of "V 0 0" "V 1 0" "V 0 1" "[V 0 1, V (-1) 0, V 0 (-1)]" "V 0 0"]
  by (simp add: select_example)

text \<open>
  The claim as stated fails: for \<open>A\<close> = (0,0), \<open>B\<close> = (1,0), \<open>C\<close> = (0,1) the pruned
  chain is \<open>[C, B]\<close>, not \<open>[B]\<close>.
\<close>

theorem prune_example_counterexample:
  "\<not> eq_v (V 0 0) (V 1 0) \<and> \<not> eq_v (V 0 0) (V 0 1) \<and> \<not> eq_v (V 1 0) (V 0 1) \<and>
   closure_check [V 0 0, V 1 0, V 0 1, V 1 0] = Some [V 0 1, V 1 0] \<and>
   closure_check [V 0 0, V 1 0, V 0 1, V 1 0] \<noteq> Some [V 1 0]"
  by (simp add: closure_check_def)

section \<open>Degenerate-start correction\<close>

text \<open>
  Claim C5. When the chain at selection time has exactly one element and the winning
  angle is below 90, the step returns the chain that holds the winning point alone (the
  length stays 1); in every other selection state with a non-empty chain it returns the
  chain with the winning point appended.
\<close>

theorem degenerate_start_correction:
  "closure_check ch = Some pr \<and> pr \<noteq> [] \<and> points \<noteq> [] \<longrightarrow>
     (case select points mean (last pr) of (min_ang, closest) \<Rightarrow>
        (length pr = 1 \<and> min_ang < 90 \<longrightarrow>
           SolverStep points mean ch = Inr (True, [points ! closest])) \<and>
        (\<not> (length pr = 1 \<and> min_ang < 90) \<longrightarrow>
           SolverStep points mean ch = Inr (True, pr @ [points ! closest])))"
  by (auto simp: SolverStep_Some next_pt_def split: prod.splits)

theorem degenerate_start_correction_witness:
  "closure_check [V 1 0] = Some [V 1 0] \<and> [V 1 0] \<noteq> [] \<and> [V 1 0, V 2 1] \<noteq> [] \<and>
   select [V 1 0, V 2 1] (V 0 0) (last [V 1 0]) = (45, 1) \<and>
   length [V 1 0] = 1 \<and> (45::real) < 90 \<and>
   SolverStep [V 1 0, V 2 1] (V 0 0) [V 1 0] = Inr (True, [V 2 1])"
  using degenerate_start_correction [of "[V 1 0]" "[V 1 0]" "[V 1 0, V 2 1]" "V 0 0"]
  by (simp add: closure_check_def select_def angle_examples)

section \<open>No candidate\<close>




section \<open>Runs on concrete inputs\<close>


lemma closure_check_single [simp]: "closure_check [a] = Some [a]"
  by (simp add: closure_check_def)

lemma closure_check_Nil [simp]: "closure_check [] = Some []"
  by (simp add: closure_check_def)




text \<open>
  The angle by quadrant of the pair (dot, det): below 90, from 90 to 180, above 180 and
  above 270, with the comparisons inside one quadrant decided by the quotients.
\<close>

lemma atan2f_quad1: "0 < a \<Longrightarrow> atan2f b a = arctan (b / a)"
  by (simp add: atan2f_def)

lemma atan2f_quad2: "a < 0 \<Longrightarrow> 0 \<le> b \<Longrightarrow> atan2f b a = arctan (b / a) + pi"
  by (simp add: atan2f_def)

lemma atan2f_quad3: "a < 0 \<Longrightarrow> b < 0 \<Longrightarrow> atan2f b a = arctan (b / a) - pi"
  by (simp add: atan2f_def)

lemma angle_quad1:
  assumes "0 < a * c + b * d" and "0 \<le> a * d - b * c"
  shows "angle (V a b) (V c d) = arctan ((a * d - b * c) / (a * c + b * d)) * 180 / pi"
    and "angle (V a b) (V c d) < 90"
proof -
  let ?r = "(a * d - b * c) / (a * c + b * d)"
  have p: "0 < pi" by (rule pi_gt_zero)
  have "0 \<le> ?r" using assms by simp
  then have l: "0 \<le> arctan ?r" by (simp add: zero_le_arctan_iff)
  have u: "arctan ?r < pi / 2" by (rule arctan_ubound)
  have n: "\<not> arctan ?r * 180 / pi < 0" using l p by (simp add: field_simps not_less)
  show e: "angle (V a b) (V c d) = arctan ?r * 180 / pi"
    using n assms(1) by (simp add: angle_V atan2f_quad1)
  have "arctan ?r * 180 / pi < 90" using u p by (simp add: field_simps)
  then show "angle (V a b) (V c d) < 90" using e by simp
qed

lemma angle_quad2:
  assumes "a * c + b * d < 0" and "0 \<le> a * d - b * c"
  shows "angle (V a b) (V c d) = (arctan ((a * d - b * c) / (a * c + b * d)) + pi) * 180 / pi"
    and "90 < angle (V a b) (V c d)" and "angle (V a b) (V c d) \<le> 180"
proof -
  let ?r = "(a * d - b * c) / (a * c + b * d)"
  have p: "0 < pi" by (rule pi_gt_zero)
  have "?r \<le> 0" using assms by (simp add: divide_nonneg_neg)
  then have u: "arctan ?r \<le> 0" by (simp add: arctan_le_zero_iff)
  have l: "- (pi / 2) < arctan ?r" by (rule arctan_lbound)
  have n: "\<not> (arctan ?r + pi) * 180 / pi < 0"
    using l p by (simp add: field_simps not_less) (insert p, linarith)
  show e: "angle (V a b) (V c d) = (arctan ?r + pi) * 180 / pi"
    using n assms by (simp add: angle_V atan2f_quad2)
  have "90 < (arctan ?r + pi) * 180 / pi" using l p by (simp add: field_simps)
  then show "90 < angle (V a b) (V c d)" using e by simp
  have "(arctan ?r + pi) * 180 / pi \<le> 180" using u p by (simp add: field_simps)
  then show "angle (V a b) (V c d) \<le> 180" using e by simp
qed

lemma angle_quad3:
  assumes "a * c + b * d < 0" and "a * d - b * c < 0"
  shows "angle (V a b) (V c d) = 360 - arctan ((a * d - b * c) / (a * c + b * d)) * 180 / pi"
    and "270 < angle (V a b) (V c d)"
proof -
  let ?r = "(a * d - b * c) / (a * c + b * d)"
  have p: "0 < pi" by (rule pi_gt_zero)
  have u: "arctan ?r < pi / 2" by (rule arctan_ubound)
  have n: "(arctan ?r - pi) * 180 / pi < 0"
    using u p by (simp add: field_simps) (insert p, linarith)
  have "angle (V a b) (V c d) = 180 - (arctan ?r - pi) * 180 / pi"
    using n assms by (simp add: angle_V atan2f_quad3)
  also have "\<dots> = 360 - arctan ?r * 180 / pi" using p by (simp add: field_simps)
  finally show e: "angle (V a b) (V c d) = 360 - arctan ?r * 180 / pi" .
  have "arctan ?r * 180 / pi < 90" using u p by (simp add: field_simps)
  then show "270 < angle (V a b) (V c d)" using e by simp
qed

lemma angle_quad4:
  assumes "0 < a * c + b * d" and "a * d - b * c < 0"
  shows "180 < angle (V a b) (V c d)"
proof -
  let ?r = "(a * d - b * c) / (a * c + b * d)"
  have p: "0 < pi" by (rule pi_gt_zero)
  have "?r < 0" using assms by (simp add: divide_neg_pos)
  then have u: "arctan ?r < 0" by (simp add: arctan_less_zero_iff)
  then have n: "arctan ?r * 180 / pi < 0" using p by (simp add: field_simps)
  then have "angle (V a b) (V c d) = 180 - arctan ?r * 180 / pi"
    using assms(1) by (simp add: angle_V atan2f_quad1)
  then show ?thesis using n by simp
qed

lemma angle_quad3_upper:
  assumes "a * c + b * d < 0" and "a * d - b * c < 0"
  shows "angle (V a b) (V c d) < 360"
proof -
  let ?r = "(a * d - b * c) / (a * c + b * d)"
  have p: "0 < pi" by (rule pi_gt_zero)
  have "0 < ?r" using assms by (simp add: divide_neg_neg)
  then have "0 < arctan ?r" by (simp add: zero_less_arctan_iff)
  then have "0 < arctan ?r * 180 / pi" using p by simp
  then show ?thesis using angle_quad3(1) [OF assms] by simp
qed

lemma angle_quad1_less:
  assumes "0 < a * c + b * d" and "0 \<le> a * d - b * c"
    and "0 < a * c' + b * d'" and "0 \<le> a * d' - b * c'"
  shows "angle (V a b) (V c d) < angle (V a b) (V c' d') \<longleftrightarrow>
         (a * d - b * c) / (a * c + b * d) < (a * d' - b * c') / (a * c' + b * d')"
  using pi_gt_zero
  by (simp add: angle_quad1(1) [OF assms(1,2)] angle_quad1(1) [OF assms(3,4)]
      divide_less_cancel arctan_less_iff)

lemma angle_quad2_less:
  assumes "a * c + b * d < 0" and "0 \<le> a * d - b * c"
    and "a * c' + b * d' < 0" and "0 \<le> a * d' - b * c'"
  shows "angle (V a b) (V c d) < angle (V a b) (V c' d') \<longleftrightarrow>
         (a * d - b * c) / (a * c + b * d) < (a * d' - b * c') / (a * c' + b * d')"
  using pi_gt_zero
  by (simp add: angle_quad2(1) [OF assms(1,2)] angle_quad2(1) [OF assms(3,4)]
      divide_less_cancel arctan_less_iff)

lemma angle_quad3_less:
  assumes "a * c + b * d < 0" and "a * d - b * c < 0"
    and "a * c' + b * d' < 0" and "a * d' - b * c' < 0"
  shows "angle (V a b) (V c d) < angle (V a b) (V c' d') \<longleftrightarrow>
         (a * d' - b * c') / (a * c' + b * d') < (a * d - b * c) / (a * c + b * d)"
  using pi_gt_zero
  by (simp add: angle_quad3(1) [OF assms(1,2)] angle_quad3(1) [OF assms(3,4)]
      divide_less_cancel arctan_less_iff)

text \<open>
Two points on the horizontal axis with their centroid: the chain closes with three elements.
\<close>

lemma steps_example0:
  "steps [V 1 0, V (-1) 0] (V 0 0) (Suc (Suc (Suc 0))) [] = Inr [V 1 0, V (-1) 0, V 1 0]"
  by (simp add: SolverStep_def closure_check_def grow_def select_def angle_example_2
      angle_example_7)

lemma reachable_example0: "reachable [V 1 0, V (-1) 0] (V 0 0) [V 1 0, V (-1) 0, V 1 0]"
  using reachable_empty steps_example0 by (rule steps_reachable)

text \<open>
  The four points: the selections at each of them, and the steps of the run, which
  enters a cycle of four chains after three calls.
\<close>

lemma sel_X:
  "select quad_pts quad_c quad_X = (angle (sub_v quad_X quad_c) (sub_v quad_q quad_X), 1) \<and>
   \<not> angle (sub_v quad_X quad_c) (sub_v quad_q quad_X) < 90"
proof -
  have q: "90 < angle (sub_v quad_X quad_c) (sub_v quad_q quad_X)" "angle (sub_v quad_X quad_c) (sub_v quad_q quad_X) \<le> 180"
    by (simp_all add: angle_quad2(2,3))
  have b: "270 < angle (sub_v quad_X quad_c) (sub_v quad_b quad_X)" by (simp add: angle_quad3(2))
  have a: "\<not> angle (sub_v quad_X quad_c) (sub_v quad_a quad_X) < angle (sub_v quad_X quad_c) (sub_v quad_q quad_X)"
    by (simp add: angle_quad2_less)
  have f1: "angle (sub_v quad_X quad_c) (sub_v quad_q quad_X) < 360" using q by simp
  have f2: "\<not> angle (sub_v quad_X quad_c) (sub_v quad_b quad_X) < angle (sub_v quad_X quad_c) (sub_v quad_q quad_X)"
    using q b by simp
  have f3: "\<not> angle (sub_v quad_X quad_c) (sub_v quad_q quad_X) < 90" using q by simp
  show ?thesis using f1 f2 a f3 by (simp add: select_def)
qed

lemma sel_q: "select quad_pts quad_c quad_q = (angle (sub_v quad_q quad_c) (sub_v quad_a quad_q), 3)"
proof -
  have x: "270 < angle (sub_v quad_q quad_c) (sub_v quad_X quad_q)" "angle (sub_v quad_q quad_c) (sub_v quad_X quad_q) < 360"
    by (simp_all add: angle_quad3(2) angle_quad3_upper)
  have b: "angle (sub_v quad_q quad_c) (sub_v quad_b quad_q) < 90" by (simp add: angle_quad1(2))
  have a: "angle (sub_v quad_q quad_c) (sub_v quad_a quad_q) < angle (sub_v quad_q quad_c) (sub_v quad_b quad_q)"
    by (simp add: angle_quad1_less)
  have f2: "angle (sub_v quad_q quad_c) (sub_v quad_b quad_q) < angle (sub_v quad_q quad_c) (sub_v quad_X quad_q)"
    using x b by simp
  show ?thesis using x(2) f2 a by (simp add: select_def)
qed

lemma sel_a: "select quad_pts quad_c quad_a = (angle (sub_v quad_a quad_c) (sub_v quad_b quad_a), 2)"
proof -
  have x: "270 < angle (sub_v quad_a quad_c) (sub_v quad_X quad_a)" "angle (sub_v quad_a quad_c) (sub_v quad_X quad_a) < 360"
    by (simp_all add: angle_quad3(2) angle_quad3_upper)
  have q: "\<not> angle (sub_v quad_a quad_c) (sub_v quad_q quad_a) < angle (sub_v quad_a quad_c) (sub_v quad_X quad_a)"
    by (simp add: angle_quad3_less)
  have b: "angle (sub_v quad_a quad_c) (sub_v quad_b quad_a) \<le> 180" by (simp add: angle_quad2(3))
  have f3: "angle (sub_v quad_a quad_c) (sub_v quad_b quad_a) < angle (sub_v quad_a quad_c) (sub_v quad_X quad_a)"
    using x b by simp
  show ?thesis using x(2) q f3 by (simp add: select_def)
qed

lemma sel_b: "select quad_pts quad_c quad_b = (angle (sub_v quad_b quad_c) (sub_v quad_X quad_b), 0)"
proof -
  have x: "angle (sub_v quad_b quad_c) (sub_v quad_X quad_b) \<le> 180" by (simp add: angle_quad2(3))
  have q: "270 < angle (sub_v quad_b quad_c) (sub_v quad_q quad_b)" by (simp add: angle_quad3(2))
  have a: "180 < angle (sub_v quad_b quad_c) (sub_v quad_a quad_b)" by (simp add: angle_quad4)
  have f1: "angle (sub_v quad_b quad_c) (sub_v quad_X quad_b) < 360" using x by simp
  have f2: "\<not> angle (sub_v quad_b quad_c) (sub_v quad_q quad_b) < angle (sub_v quad_b quad_c) (sub_v quad_X quad_b)"
    using x q by simp
  have f3: "\<not> angle (sub_v quad_b quad_c) (sub_v quad_a quad_b) < angle (sub_v quad_b quad_c) (sub_v quad_X quad_b)"
    using x a by simp
  show ?thesis using f1 f2 f3 by (simp add: select_def)
qed

lemma step4_0: "SolverStep quad_pts quad_c [] = Inr (True, [quad_X])"
  by (simp add: SolverStep_def closure_check_def grow_def)

lemma step4_1: "SolverStep quad_pts quad_c [quad_X] = Inr (True, [quad_X, quad_q])"
  using sel_X by (simp add: SolverStep_def closure_check_def grow_def)

lemma step4_2: "SolverStep quad_pts quad_c [quad_X, quad_q] = Inr (True, [quad_X, quad_q, quad_a])"
  by (simp add: SolverStep_def closure_check_def grow_def sel_q)

lemma step4_3: "SolverStep quad_pts quad_c [quad_X, quad_q, quad_a] = Inr (True, [quad_X, quad_q, quad_a, quad_b])"
  by (simp add: SolverStep_def closure_check_def grow_def sel_a)

lemma step4_4: "SolverStep quad_pts quad_c [quad_X, quad_q, quad_a, quad_b] = Inr (True, [quad_a, quad_b, quad_X])"
  by (simp add: SolverStep_def closure_check_def grow_def sel_b)



lemma steps4_5: "steps quad_pts quad_c (Suc (Suc (Suc (Suc (Suc 0))))) [] = Inr [quad_a, quad_b, quad_X]"
  by (simp add: step4_0 step4_1 step4_2 step4_3 step4_4)






section \<open>Invariants of the reachable chains\<close>

text \<open>
  Claim C8, at two failing inputs. Over a point set whose points all coincide (the
  singleton \<open>[(0,0)]\<close>, and twenty copies of (0,0)), two calls from the empty chain give
  the chain \<open>[(0,0), (0,0)]\<close>: no candidate exists, the loop keeps its default
  \<open>closest = 0\<close>, and the last vertex is appended once more. The two adjacent elements are
  equal under \<open>operator==\<close>.
\<close>

theorem adjacent_duplicate:
  "steps [V 0 0] (V 0 0) 2 [] = Inr [V 0 0, V 0 0] \<and>
   reachable [V 0 0] (V 0 0) [V 0 0, V 0 0] \<and>
   steps (replicate 20 (V 0 0)) (V 0 0) 2 [] = Inr [V 0 0, V 0 0] \<and>
   reachable (replicate 20 (V 0 0)) (V 0 0) [V 0 0, V 0 0] \<and>
   eq_v ([V 0 0, V 0 0] ! 0) ([V 0 0, V 0 0] ! 1)"
proof -
  have s: "steps [V 0 0] (V 0 0) (Suc (Suc 0)) [] = Inr [V 0 0, V 0 0]"
    by (simp add: SolverStep_def closure_check_def grow_def select_def)
  have "select (replicate 20 (V 0 0)) (V 0 0) (V 0 0) = (360, 0)"
    unfolding select_def by (rule scan_no_candidate) simp
  then have t: "steps (replicate 20 (V 0 0)) (V 0 0) (Suc (Suc 0)) [] = Inr [V 0 0, V 0 0]"
    by (simp add: SolverStep_def closure_check_def grow_def)
  have "reachable [V 0 0] (V 0 0) [V 0 0, V 0 0]"
    using reachable_empty s by (rule steps_reachable)
  moreover have "reachable (replicate 20 (V 0 0)) (V 0 0) [V 0 0, V 0 0]"
    using reachable_empty t by (rule steps_reachable)
  ultimately show ?thesis using s t by (simp add: numeral_2_eq_2)
qed

text \<open>
  Claim C9, as amended. The length of a reachable chain never exceeds \<open>N + 1\<close>, where
  \<open>N\<close> is the number of points.
\<close>

theorem length_bound:
  assumes "reachable points mean ch"
  shows "length ch \<le> length points + 1"
  using reachable_bound_inv [OF assms] by (simp add: bound_inv_def)

theorem length_bound_witness:
  "reachable [V 1 0, V (-1) 0] (V 0 0) [V 1 0, V (-1) 0, V 1 0] \<and>
   length [V 1 0, V (-1) 0, V 1 0] \<le> length [V 1 0, V (-1) 0] + 1"
  using length_bound [OF reachable_example0] reachable_example0 by simp

text \<open>
  The claim as stated fails: over the two points (1,0) and (-1,0) with their centroid
  (0,0), three calls from the empty chain give a chain of three elements.
\<close>

theorem length_bound_counterexample:
  "steps [V 1 0, V (-1) 0] (V 0 0) 3 [] = Inr [V 1 0, V (-1) 0, V 1 0] \<and>
   reachable [V 1 0, V (-1) 0] (V 0 0) [V 1 0, V (-1) 0, V 1 0] \<and>
   \<not> length [V 1 0, V (-1) 0, V 1 0] \<le> length [V 1 0, V (-1) 0]"
  using steps_example0 reachable_example0 by (simp add: numeral_3_eq_3)

text \<open>
  Claim C10, as amended. Over a point set whose points are pairwise different under
  \<open>operator==\<close>, all elements of a reachable chain except possibly the last are pairwise
  different under \<open>operator==\<close>.
\<close>

theorem prefix_distinct:
  assumes "distinct_eps points" and "reachable points mean ch"
  shows "\<forall>i j. i < j \<and> Suc j < length ch \<longrightarrow> \<not> eq_v (ch ! i) (ch ! j)"
proof (intro allI impI)
  fix i j assume a: "i < j \<and> Suc j < length ch"
  have ex: "eq_exact points" using assms(1) by (rule distinct_eps_eq_exact)
  have inv: "chain_inv points mean ch" using ex assms(2) by (rule reachable_inv)
  have "set ch \<subseteq> set points" using inv by (simp add: chain_inv_def)
  moreover have "ch ! i \<in> set ch" "ch ! j \<in> set ch" using a by simp_all
  ultimately have m: "ch ! i \<in> set points" "ch ! j \<in> set points" by blast+
  have d: "distinct (butlast ch)" using inv by (simp add: chain_inv_def)
  have l: "i < length (butlast ch)" "j < length (butlast ch)" "i \<noteq> j"
    using a by auto
  then have "butlast ch ! i \<noteq> butlast ch ! j"
    using d by (simp add: nth_eq_iff_index_eq)
  then have "ch ! i \<noteq> ch ! j" using l by (simp add: nth_butlast)
  then show "\<not> eq_v (ch ! i) (ch ! j)" using ex m by (auto simp: eq_exact_def)
qed

theorem prefix_distinct_witness:
  "distinct_eps [V 1 0, V (-1) 0] \<and>
   reachable [V 1 0, V (-1) 0] (V 0 0) [V 1 0, V (-1) 0, V 1 0] \<and>
   (0::nat) < 1 \<and> Suc 1 < length [V 1 0, V (-1) 0, V 1 0] \<and>
   \<not> eq_v ([V 1 0, V (-1) 0, V 1 0] ! 0) ([V 1 0, V (-1) 0, V 1 0] ! 1)"
proof -
  have d: "distinct_eps [V 1 0, V (-1) 0]" by simp
  from prefix_distinct [OF d reachable_example0, rule_format, of 0 1]
  show ?thesis using d reachable_example0 by simp
qed

text \<open>
  The claim as stated, for points that are merely different, fails: the four points
  (0,4), (0,7e-10), (7e-10,0), (0,-7e-10) are different, and after five calls with their
  centroid the chain is \<open>[(0,-7e-10), (7e-10,0), (0,4)]\<close>, whose first two elements are
  equal under \<open>operator==\<close>.
\<close>

theorem prefix_distinct_counterexample:
  "distinct quad_pts \<and>
   steps quad_pts quad_c 5 [] = Inr [quad_a, quad_b, quad_X] \<and>
   reachable quad_pts quad_c [quad_a, quad_b, quad_X] \<and>
   (0::nat) < 1 \<and> Suc 1 < length [quad_a, quad_b, quad_X] \<and>
   eq_v ([quad_a, quad_b, quad_X] ! 0) ([quad_a, quad_b, quad_X] ! 1)"
proof -
  have "reachable quad_pts quad_c [quad_a, quad_b, quad_X]"
    using reachable_empty steps4_5 by (rule steps_reachable)
  then show ?thesis using steps4_5 by (simp add: eval_nat_numeral)
qed

section \<open>Termination\<close>

lemma angle_lt_90_dot:
  assumes "angle v1 v2 < 90"
  shows "0 \<le> vx v1 * vx v2 + vy v1 * vy v2"
proof (rule ccontr)
  define dot where "dot = vx v1 * vx v2 + vy v1 * vy v2"
  define det where "det = vx v1 * vy v2 - vy v1 * vx v2"
  define t where "t = atan2f det dot"
  assume "\<not> 0 \<le> vx v1 * vx v2 + vy v1 * vy v2"
  then have neg: "dot < 0" by (simp add: dot_def)
  have p: "0 < pi" by (rule pi_gt_zero)
  have a: "angle v1 v2 = (if t * 180 / pi < 0 then 180 - t * 180 / pi else t * 180 / pi)"
    by (simp add: angle_def Let_def t_def dot_def det_def PI_def)
  have "\<not> t * 180 / pi < 0" using assms a by (auto split: if_splits)
  then have t0: "0 \<le> t" using p by (simp add: field_simps not_less)
  have "t * 180 / pi < 90" using assms a \<open>\<not> t * 180 / pi < 0\<close> by simp
  then have t1: "t < pi / 2" using p by (simp add: field_simps)
  have l: "- (pi / 2) < arctan (det / dot)" by (rule arctan_lbound)
  have u: "arctan (det / dot) < pi / 2" by (rule arctan_ubound)
  show False
  proof (cases "0 \<le> det")
    case True
    then have "t = arctan (det / dot) + pi" using neg by (simp add: t_def atan2f_def)
    then show False using l t1 by simp
  next
    case False
    then have "t = arctan (det / dot) - pi" using neg by (simp add: t_def atan2f_def)
    then show False using u t0 p by simp
  qed
qed

text \<open>
A winning angle below 90 moves the vertex strictly away from the centroid.
\<close>

lemma dist2_grows:
  assumes "angle (sub_v l mean) (sub_v w l) < 90" and "w \<noteq> l"
  shows "dist2 mean l < dist2 mean w"
proof -
  define a where "a = vx l - vx mean"
  define b where "b = vy l - vy mean"
  define c where "c = vx w - vx l"
  define d where "d = vy w - vy l"
  have dot: "0 \<le> a * c + b * d"
    using angle_lt_90_dot [OF assms(1)] by (simp add: sub_v_def a_def b_def c_def d_def)
  have "c \<noteq> 0 \<or> d \<noteq> 0"
    using assms(2) by (cases w, cases l) (auto simp: c_def d_def)
  then have pos: "0 < c * c + d * d"
    by (metis add_nonneg_eq_0_iff mult_eq_0_iff not_less zero_le_square add_nonneg_nonneg less_eq_real_def)
  have "dist2 mean w = (a + c) * (a + c) + (b + d) * (b + d)"
    by (simp add: dist2_def a_def b_def c_def d_def)
  also have "\<dots> = (a * a + b * b) + 2 * (a * c + b * d) + (c * c + d * d)"
    by (simp add: algebra_simps)
  finally have "dist2 mean w = dist2 mean l + 2 * (a * c + b * d) + (c * c + d * d)"
    by (simp add: dist2_def a_def b_def)
  then show ?thesis using dot pos by simp
qed

text \<open>
  In the exact arithmetic of the model a degenerate-start replacement therefore always
  moves the vertex strictly away from the centroid.
\<close>

lemma replacement_moves_away:
  assumes "fst (select points mean a) < 90"
  shows "dist2 mean a < dist2 mean (next_pt points mean a)"
proof -
  obtain m c where s: "select points mean a = (m, c)" by (cases "select points mean a")
  have "m < 90" using assms s by simp
  with select_spec [where points = points and mean = mean and l = a] s
  have w: "norm_v (sub_v (points ! c) a) \<noteq> 0" "m = angle (sub_v a mean) (sub_v (points ! c) a)"
    by auto
  have "points ! c \<noteq> a" using w(1) by (rule candidate_ne)
  moreover have "angle (sub_v a mean) (sub_v (points ! c) a) < 90" using w(2) \<open>m < 90\<close> by simp
  ultimately have "dist2 mean a < dist2 mean (points ! c)" by (intro dist2_grows)
  then show ?thesis using s by (simp add: next_pt_def)
qed






end
